theory Spec2Isabelle
  imports Complex_Main
begin

section \<open>Context enrichment window around a chunk\<close>

text \<open>
  The notebook \<^verbatim>\<open>context_enrichment_window_around_chunk.ipynb\<close> defines three functions:
  \<^verbatim>\<open>split_text_to_chunks_with_indices\<close> (the chunker), \<^verbatim>\<open>get_chunk_by_index\<close> (the lookup
  of a chunk by its chronological index) and \<^verbatim>\<open>retrieve_with_context_overlap\<close> (search, then
  a window of neighbours around every hit). They are embedded below, in this order.
\<close>

subsection \<open>Python slices\<close>

text \<open>
  \<^verbatim>\<open>xs[start:end]\<close> as CPython computes it: a negative bound counts from the end of the
  sequence, and both bounds are then clipped to \<open>0 .. len(xs)\<close>; the slice is empty when the
  adjusted start is not below the adjusted end. A slice never raises.
\<close>

definition py_adjust :: "int \<Rightarrow> int \<Rightarrow> int" where
  "py_adjust n i = (if i < 0 then max 0 (i + n) else min i n)"

definition py_slice :: "'a list \<Rightarrow> int \<Rightarrow> int \<Rightarrow> 'a list" where
  "py_slice xs start end =
     (let n = int (length xs);
          lo = py_adjust n start;
          hi = py_adjust n end
      in if lo < hi then take (nat (hi - lo)) (drop (nat lo) xs) else [])"

text \<open>\<^verbatim>\<open>xs[start:]\<close>: the end bound is the length of the sequence.\<close>

definition py_slice_from :: "'a list \<Rightarrow> int \<Rightarrow> 'a list" where
  "py_slice_from xs start = drop (nat (py_adjust (int (length xs)) start)) xs"

subsection \<open>Documents\<close>

text \<open>
  A \<^verbatim>\<open>Document\<close> has a \<^verbatim>\<open>page_content\<close> string and a \<^verbatim>\<open>metadata\<close> dictionary. The code
  reads and writes two keys of the dictionary: \<^verbatim>\<open>"index"\<close>, an integer, and \<^verbatim>\<open>"text"\<close>, the
  whole source text. Each key is a field holding \<open>None\<close> when the dictionary lacks the key,
  so that \<^verbatim>\<open>metadata.get('index')\<close> is the field \<open>meta_index\<close> itself. Python's integers are
  unbounded: they are \<^typ>\<open>int\<close>.
\<close>

record document =
  page_content :: string
  meta_index :: "int option"
  meta_text :: "string option"

subsection \<open>The chunker\<close>

text \<open>
  \<^verbatim>\<open>
  def split_text_to_chunks_with_indices(text, chunk_size, chunk_overlap):
      chunks = []
      start = 0
      while start < len(text):
          end = start + chunk_size
          chunk = text[start:end]
          chunks.append(Document(page_content=chunk,
                                 metadata={"index": len(chunks), "text": text}))
          start += chunk_size - chunk_overlap
      return chunks
  \<close>
  The loop has no bound of its own, so it is a partial function: \<open>None\<close> is a run that
  never leaves the loop. The function checks none of its parameters and has no
  \<^verbatim>\<open>raise\<close>.
\<close>

partial_function (option) split_loop ::
  "string \<Rightarrow> int \<Rightarrow> int \<Rightarrow> document list \<Rightarrow> int \<Rightarrow> document list option" where
  "split_loop text chunk_size chunk_overlap chunks start =
     (if start < int (length text) then
        split_loop text chunk_size chunk_overlap
          (chunks @ [\<lparr>page_content = py_slice text start (start + chunk_size),
                      meta_index = Some (int (length chunks)),
                      meta_text = Some text\<rparr>])
          (start + (chunk_size - chunk_overlap))
      else Some chunks)"

declare split_loop.simps [code]

definition split_text_to_chunks_with_indices ::
  "string \<Rightarrow> int \<Rightarrow> int \<Rightarrow> document list option" where
  "split_text_to_chunks_with_indices text chunk_size chunk_overlap =
     split_loop text chunk_size chunk_overlap [] 0"

subsection \<open>The vector store and the lookup by index\<close>

text \<open>
  The vector store is a library object. The code calls \<^verbatim>\<open>similarity_search(query, k)\<close>
  on it (directly, and through the retriever made by \<^verbatim>\<open>as_retriever\<close>) and reads
  \<^verbatim>\<open>index.ntotal\<close>, the number of stored vectors; these two are the fields of the model.
  \<^verbatim>\<open>similarity_search("", k=ntotal)\<close> is the full scan of the store: its result is what the
  code takes to be the stored documents.
\<close>

record vectorstore =
  ntotal :: int
  similarity_search :: "string \<Rightarrow> int \<Rightarrow> document list"

definition all_docs :: "vectorstore \<Rightarrow> document list" where
  "all_docs vs = similarity_search vs [] (ntotal vs)"

text \<open>
  \<^verbatim>\<open>
  def get_chunk_by_index(vectorstore, target_index):
      all_docs = vectorstore.similarity_search("", k=vectorstore.index.ntotal)
      for doc in all_docs:
          if 'index' in doc.metadata and doc.metadata['index'] == target_index:
              return doc
      return None
  \<close>
\<close>

definition get_chunk_by_index :: "vectorstore \<Rightarrow> int \<Rightarrow> document option" where
  "get_chunk_by_index vs target_index =
     find (\<lambda>doc. meta_index doc \<noteq> None \<and> meta_index doc = Some target_index) (all_docs vs)"

subsection \<open>Retrieval with a window of neighbours\<close>

datatype py_error = IndexError

text \<open>
  The body of the loop over the hits, in its three steps. First the neighbours:
  \<^verbatim>\<open>
  neighbor_chunks = [chunk]
  for i in range(1, num_neighbors + 1):
      prev_chunk = get_chunk_by_index(vectorstore, current_index - i)
      if prev_chunk:
          neighbor_chunks.insert(0, prev_chunk)
      next_chunk = get_chunk_by_index(vectorstore, current_index + i)
      if next_chunk:
          neighbor_chunks.append(next_chunk)
  \<close>
  A \<^verbatim>\<open>Document\<close> is always true as a condition, so the tests are tests for \<open>None\<close>.
\<close>

definition add_neighbors :: "vectorstore \<Rightarrow> int \<Rightarrow> document list \<Rightarrow> int \<Rightarrow> document list" where
  "add_neighbors vs current_index neighbor_chunks i =
     (let with_prev = (case get_chunk_by_index vs (current_index - i) of
                         Some prev_chunk \<Rightarrow> prev_chunk # neighbor_chunks
                       | None \<Rightarrow> neighbor_chunks)
      in case get_chunk_by_index vs (current_index + i) of
           Some next_chunk \<Rightarrow> with_prev @ [next_chunk]
         | None \<Rightarrow> with_prev)"

definition collect_neighbors :: "vectorstore \<Rightarrow> document \<Rightarrow> int \<Rightarrow> int \<Rightarrow> document list" where
  "collect_neighbors vs chunk current_index num_neighbors =
     foldl (add_neighbors vs current_index) [chunk] [1..num_neighbors]"

text \<open>
  Then the sort, \<^verbatim>\<open>neighbor_chunks.sort(key=lambda x: x.metadata.get('index', 0))\<close>, which
  is stable, as \<^const>\<open>sort_key\<close> is.
\<close>

definition sort_by_index :: "document list \<Rightarrow> document list" where
  "sort_by_index neighbor_chunks =
     sort_key (\<lambda>x. case meta_index x of Some i \<Rightarrow> i | None \<Rightarrow> 0) neighbor_chunks"

text \<open>
  Then the concatenation:
  \<^verbatim>\<open>
  concatenated_text = neighbor_chunks[0].page_content
  for i in range(1, len(neighbor_chunks)):
      current_chunk = neighbor_chunks[i].page_content
      overlap_start = chunk_size - chunk_overlap
      concatenated_text += current_chunk[overlap_start:]
  \<close>
  \<^verbatim>\<open>neighbor_chunks[0]\<close> raises \<^verbatim>\<open>IndexError\<close> on an empty list.
\<close>

definition concatenate_chunks :: "document list \<Rightarrow> int \<Rightarrow> int \<Rightarrow> py_error + string" where
  "concatenate_chunks neighbor_chunks chunk_size chunk_overlap =
     (case neighbor_chunks of
        [] \<Rightarrow> Inl IndexError
      | first # rest \<Rightarrow>
          Inr (foldl (\<lambda>concatenated_text current.
                        concatenated_text @
                          py_slice_from (page_content current) (chunk_size - chunk_overlap))
                     (page_content first) rest))"

definition context_window ::
  "vectorstore \<Rightarrow> document \<Rightarrow> int \<Rightarrow> int \<Rightarrow> int \<Rightarrow> int \<Rightarrow> py_error + string" where
  "context_window vs chunk current_index num_neighbors chunk_size chunk_overlap =
     concatenate_chunks
       (sort_by_index (collect_neighbors vs chunk current_index num_neighbors))
       chunk_size chunk_overlap"

text \<open>
  The loop over the hits: a hit whose metadata has no index is passed over
  (\<^verbatim>\<open>continue\<close>), every other hit appends its window to \<^verbatim>\<open>result_sequences\<close>.
\<close>

fun retrieve_loop ::
  "vectorstore \<Rightarrow> document list \<Rightarrow> int \<Rightarrow> int \<Rightarrow> int \<Rightarrow> string list \<Rightarrow> py_error + string list" where
  "retrieve_loop vs [] num_neighbors chunk_size chunk_overlap result_sequences =
     Inr result_sequences"
| "retrieve_loop vs (chunk # relevant_chunks) num_neighbors chunk_size chunk_overlap result_sequences =
     (case meta_index chunk of
        None \<Rightarrow>
          retrieve_loop vs relevant_chunks num_neighbors chunk_size chunk_overlap result_sequences
      | Some current_index \<Rightarrow>
          (case context_window vs chunk current_index num_neighbors chunk_size chunk_overlap of
             Inl e \<Rightarrow> Inl e
           | Inr concatenated_text \<Rightarrow>
               retrieve_loop vs relevant_chunks num_neighbors chunk_size chunk_overlap
                 (result_sequences @ [concatenated_text])))"

text \<open>
  \<^verbatim>\<open>
  retriever = vectorstore.as_retriever(search_kwargs={"k": k})
  relevant_chunks = retriever.get_relevant_documents(query)
  \<close>
  The retriever of a vector store answers with the store's similarity search under the
  given \<open>k\<close>.
\<close>

definition get_relevant_documents :: "vectorstore \<Rightarrow> int \<Rightarrow> string \<Rightarrow> document list" where
  "get_relevant_documents vs k query = similarity_search vs query k"

definition retrieve_with_context_overlap ::
  "vectorstore \<Rightarrow> string \<Rightarrow> int \<Rightarrow> int \<Rightarrow> int \<Rightarrow> int \<Rightarrow> py_error + string list" where
  "retrieve_with_context_overlap vs query k num_neighbors chunk_size chunk_overlap =
     retrieve_loop vs (get_relevant_documents vs k query)
       num_neighbors chunk_size chunk_overlap []"

subsection \<open>Auxiliary notions for the statements\<close>

text \<open>
  The chunk that round \<open>k\<close> of the chunker's loop appends: at that point \<open>start\<close> is
  \<open>k * (chunk_size - chunk_overlap)\<close> and \<open>len(chunks)\<close> is \<open>k\<close>.
\<close>

definition chunk_at :: "string \<Rightarrow> int \<Rightarrow> int \<Rightarrow> nat \<Rightarrow> document" where
  "chunk_at text chunk_size chunk_overlap k =
     \<lparr>page_content = py_slice text (int k * (chunk_size - chunk_overlap))
                       (int k * (chunk_size - chunk_overlap) + chunk_size),
      meta_index = Some (int k),
      meta_text = Some text\<rparr>"

text \<open>The number of rounds of the loop on a text of \<open>n\<close> characters: \<open>n / step\<close>, rounded up.\<close>

definition num_chunks :: "nat \<Rightarrow> int \<Rightarrow> nat" where
  "num_chunks n step = nat ((int n + step - 1) div step)"

text \<open>
  The reconstruction of the chunker's round-trip law, in the words of the specification:
  the first chunk whole, then every later chunk without its leading \<open>chunk_overlap\<close>
  characters.
\<close>

definition concat_dropping_overlap :: "int \<Rightarrow> string list \<Rightarrow> string" where
  "concat_dropping_overlap chunk_overlap texts =
     (case texts of
        [] \<Rightarrow> []
      | first # rest \<Rightarrow> first @ concat (map (drop (nat chunk_overlap)) rest))"

text \<open>The hits that have an index in their metadata, each with its index, in the order of the hits.\<close>

definition hits_with_index :: "document list \<Rightarrow> (document \<times> int) list" where
  "hits_with_index hits =
     concat (map (\<lambda>h. case meta_index h of None \<Rightarrow> [] | Some i \<Rightarrow> [(h, i)]) hits)"

text \<open>
  A store for the examples: it holds the given documents and ranks them in the given order
  for every query, so that a search under \<open>k\<close> answers with the first \<open>k\<close> of them.
\<close>

definition store_of :: "document list \<Rightarrow> vectorstore" where
  "store_of docs =
     \<lparr>ntotal = int (length docs), similarity_search = (\<lambda>query k. take (nat k) docs)\<rparr>"

text \<open>
  An example store: the four chunks of \<^verbatim>\<open>"abcd"\<close> under \<open>chunk_size = 2\<close> and
  \<open>chunk_overlap = 1\<close> and one document without an index, in some order of relevance.
\<close>

definition example_store :: vectorstore where
  "example_store = store_of
     [\<lparr>page_content = ''bc'', meta_index = Some 1, meta_text = Some ''abcd''\<rparr>,
      \<lparr>page_content = ''zz'', meta_index = None, meta_text = None\<rparr>,
      \<lparr>page_content = ''d'', meta_index = Some 3, meta_text = Some ''abcd''\<rparr>,
      \<lparr>page_content = ''ab'', meta_index = Some 0, meta_text = Some ''abcd''\<rparr>,
      \<lparr>page_content = ''cd'', meta_index = Some 2, meta_text = Some ''abcd''\<rparr>]"

section \<open>The chunker\<close>

subsection \<open>The loop in closed form\<close>

lemma int_le_div_iff:
  fixes a b s :: int
  assumes "0 < s"
  shows "a \<le> b div s \<longleftrightarrow> a * s \<le> b"
proof
  assume "a \<le> b div s"
  then have "a * s \<le> (b div s) * s" using assms by simp
  also have "\<dots> \<le> b"
    using assms
    by (metis Euclidean_Rings.pos_mod_sign add.commute le_add_same_cancel1 mult.commute
        mult_div_mod_eq)
  finally show "a * s \<le> b" .
next
  assume "a * s \<le> b"
  then have "(a * s) div s \<le> b div s" using assms by (rule zdiv_mono1)
  then show "a \<le> b div s" using assms by simp
qed

lemma less_num_chunks:
  assumes "0 < step"
  shows "k < num_chunks n step \<longleftrightarrow> int k * step < int n"
proof -
  have "k < num_chunks n step \<longleftrightarrow> int k + 1 \<le> (int n + step - 1) div step"
    by (auto simp: num_chunks_def)
  also have "\<dots> \<longleftrightarrow> (int k + 1) * step \<le> int n + step - 1"
    using assms by (rule int_le_div_iff)
  also have "\<dots> \<longleftrightarrow> int k * step < int n"
    by (auto simp: algebra_simps)
  finally show ?thesis .
qed

lemma num_chunks_ceiling:
  assumes "0 < step"
  shows "int (num_chunks n step) = \<lceil>real n / real_of_int step\<rceil>"
proof -
  have "real_of_int (int n) / real_of_int step \<le> real_of_int (int (num_chunks n step))"
  proof -
    have "\<not> int (num_chunks n step) * step < int n"
      using less_num_chunks [OF assms, of "num_chunks n step" n] by simp
    then have "int n \<le> int (num_chunks n step) * step" by simp
    then have "real_of_int (int n) \<le> real_of_int (int (num_chunks n step) * step)"
      by (simp only: of_int_le_iff)
    then show ?thesis using assms by (simp add: pos_divide_le_eq)
  qed
  moreover have "real_of_int (int (num_chunks n step)) - 1 < real_of_int (int n) / real_of_int step"
  proof (cases "num_chunks n step")
    case 0
    then show ?thesis
      using assms by simp (smt (verit) divide_nonneg_pos of_int_pos of_nat_0_le_iff)
  next
    case (Suc m)
    then have "m < num_chunks n step" by simp
    then have "int m * step < int n" using less_num_chunks [OF assms] by simp
    then have "real_of_int (int m * step) < real_of_int (int n)"
      by (simp only: of_int_less_iff)
    then show ?thesis using assms Suc by (simp add: pos_less_divide_eq)
  qed
  ultimately have "\<lceil>real_of_int (int n) / real_of_int step\<rceil> = int (num_chunks n step)"
    by (intro ceiling_unique) simp_all
  then show ?thesis by simp
qed

text \<open>
  With a positive step the loop ends: entered in round \<open>k\<close>, it appends the chunks of the
  rounds \<open>k, k + 1, \<dots>\<close> up to the last round.
\<close>

lemma split_loop_closed:
  assumes "0 < chunk_size - chunk_overlap"
  shows "length chunks = k \<Longrightarrow>
    split_loop text chunk_size chunk_overlap chunks (int k * (chunk_size - chunk_overlap)) =
      Some (chunks @ map (chunk_at text chunk_size chunk_overlap)
                         [k..<num_chunks (length text) (chunk_size - chunk_overlap)])"
proof (induction "num_chunks (length text) (chunk_size - chunk_overlap) - k" arbitrary: k chunks)
  case 0
  then have "\<not> k < num_chunks (length text) (chunk_size - chunk_overlap)" by simp
  then have "\<not> int k * (chunk_size - chunk_overlap) < int (length text)"
    using less_num_chunks [OF assms] by simp
  then show ?case using 0 by (subst split_loop.simps) simp
next
  case (Suc m)
  then have lt: "k < num_chunks (length text) (chunk_size - chunk_overlap)" by simp
  then have run: "int k * (chunk_size - chunk_overlap) < int (length text)"
    using less_num_chunks [OF assms] by simp
  let ?d = "chunk_at text chunk_size chunk_overlap k"
  have next_start: "int k * (chunk_size - chunk_overlap) + (chunk_size - chunk_overlap)
      = int (Suc k) * (chunk_size - chunk_overlap)"
    by (simp add: algebra_simps)
  have "split_loop text chunk_size chunk_overlap chunks (int k * (chunk_size - chunk_overlap))
      = split_loop text chunk_size chunk_overlap (chunks @ [?d])
          (int (Suc k) * (chunk_size - chunk_overlap))"
    using run Suc.prems
    by (subst split_loop.simps) (simp only: if_True next_start chunk_at_def)
  also have "\<dots> = Some ((chunks @ [?d]) @ map (chunk_at text chunk_size chunk_overlap)
                         [Suc k..<num_chunks (length text) (chunk_size - chunk_overlap)])"
    using Suc.hyps(2) Suc.prems by (intro Suc.hyps(1)) simp_all
  also have "\<dots> = Some (chunks @ map (chunk_at text chunk_size chunk_overlap)
                         [k..<num_chunks (length text) (chunk_size - chunk_overlap)])"
    using lt by (simp add: upt_conv_Cons)
  finally show ?case .
qed

lemma split_closed:
  assumes "0 < chunk_size - chunk_overlap"
  shows "split_text_to_chunks_with_indices text chunk_size chunk_overlap =
     Some (map (chunk_at text chunk_size chunk_overlap)
               [0..<num_chunks (length text) (chunk_size - chunk_overlap)])"
  using split_loop_closed [OF assms, of "[]" 0 "text"]
  by (simp add: split_text_to_chunks_with_indices_def)

text \<open>
  With a step that is not positive, \<open>start\<close> never grows: once inside the text it stays
  there and the loop has no last round.
\<close>

lemma split_loop_diverges:
  assumes "chunk_size - chunk_overlap \<le> 0" and "start < int (length text)"
  shows "split_loop text chunk_size chunk_overlap chunks start = None"
proof (cases "split_loop text chunk_size chunk_overlap chunks start")
  case None
  then show ?thesis .
next
  case (Some y)
  have "\<not> (chunk_size - chunk_overlap \<le> 0 \<and> start < int (length text))"
    by (rule split_loop.raw_induct
          [where P = "\<lambda>t cs co ch st y. \<not> (cs - co \<le> 0 \<and> st < int (length t))", OF _ Some])
       (fastforce split: if_splits)
  with assms show ?thesis by simp
qed

lemma split_returns_iff:
  "(\<exists>chunks. split_text_to_chunks_with_indices text chunk_size chunk_overlap = Some chunks)
     \<longleftrightarrow> text = [] \<or> chunk_overlap < chunk_size"
proof (cases "chunk_overlap < chunk_size")
  case True
  then show ?thesis using split_closed [of chunk_size chunk_overlap "text"] by simp
next
  case False
  show ?thesis
  proof (cases "text = []")
    case True
    then show ?thesis
      by (simp add: split_text_to_chunks_with_indices_def split_loop.simps)
  next
    case nonempty: False
    then have "split_loop text chunk_size chunk_overlap [] 0 = None"
      using False by (intro split_loop_diverges) simp_all
    then show ?thesis using False nonempty
      by (simp add: split_text_to_chunks_with_indices_def)
  qed
qed

subsection \<open>Parameters and termination\<close>

text \<open>
  Claim C3, as the code has it. The chunker checks no parameter and raises nothing: there
  is no \<^verbatim>\<open>ConfigError\<close>. Under the precondition \<open>chunk_size > 0\<close> and
  \<open>0 \<le> chunk_overlap < chunk_size\<close> the loop ends and the chunker returns its list of
  chunks.
\<close>

theorem C3_split_terminates:
  assumes "0 < chunk_size" and "0 \<le> chunk_overlap" and "chunk_overlap < chunk_size"
  shows "\<exists>chunks. split_text_to_chunks_with_indices text chunk_size chunk_overlap = Some chunks"
  using assms split_closed [of chunk_size chunk_overlap "text"] by simp

theorem C3_split_terminates_witness:
  "(0::int) < 3 \<and> (0::int) \<le> 1 \<and> (1::int) < 3 \<and>
   (\<exists>chunks. split_text_to_chunks_with_indices ''abcdef'' 3 1 = Some chunks)"
  using C3_split_terminates [of 3 1 "''abcdef''"] by simp

text \<open>
  Claim C3 as the specification states it fails: with \<open>chunk_size = -1\<close> and
  \<open>chunk_overlap = -2\<close> (a chunk size that is not positive) the chunker returns two chunks
  and no error. \<^verbatim>\<open>"ab"[0:-1]\<close> is \<^verbatim>\<open>"a"\<close> and \<^verbatim>\<open>"ab"[1:0]\<close> is empty.
\<close>

theorem C3_no_config_error:
  "(-1::int) \<le> 0 \<and>
   split_text_to_chunks_with_indices ''ab'' (-1) (-2) =
     Some [\<lparr>page_content = ''a'', meta_index = Some 0, meta_text = Some ''ab''\<rparr>,
           \<lparr>page_content = [], meta_index = Some 1, meta_text = Some ''ab''\<rparr>]"
  by (simp add: split_text_to_chunks_with_indices_def split_loop.simps py_slice_def py_adjust_def)

subsection \<open>The number of chunks\<close>

text \<open>
  Claim C4, as the code has it. Under the precondition on the parameters the number of
  chunks is \<open>len(text) / (chunk_size - chunk_overlap)\<close> rounded up: the loop runs while
  \<open>start\<close> is inside the text, whatever the last slice already covered.
\<close>

theorem C4_chunk_count:
  assumes "0 < chunk_size" and "0 \<le> chunk_overlap" and "chunk_overlap < chunk_size"
  shows "\<exists>chunks. split_text_to_chunks_with_indices text chunk_size chunk_overlap = Some chunks \<and>
           int (length chunks) = \<lceil>real (length text) / real_of_int (chunk_size - chunk_overlap)\<rceil>"
  using assms split_closed [of chunk_size chunk_overlap "text"]
    num_chunks_ceiling [of "chunk_size - chunk_overlap" "length text"]
  by simp

theorem C4_chunk_count_witness:
  "(0::int) < 3 \<and> (0::int) \<le> 2 \<and> (2::int) < 3 \<and>
   (\<exists>chunks. split_text_to_chunks_with_indices ''abcde'' 3 2 = Some chunks \<and>
      int (length chunks) = 5)"
  using C4_chunk_count [of 3 2 "''abcde''"] by simp

text \<open>
  Claim C4 as the specification states it fails: a text of three characters with
  \<open>chunk_size = 3\<close> is no longer than a chunk, and with \<open>chunk_overlap = 1\<close> the chunker
  returns two chunks, \<^verbatim>\<open>"abc"\<close> and \<^verbatim>\<open>"c"\<close>, not one.
\<close>

theorem C4_chunk_count_counterexample:
  "int (length ''abc'') \<le> 3 \<and>
   map_option length (split_text_to_chunks_with_indices ''abc'' 3 1) = Some 2"
  by (simp add: split_text_to_chunks_with_indices_def split_loop.simps)

subsection \<open>The text of a chunk\<close>

lemma py_slice_nat: "py_slice xs (int a) (int a + int c) = take c (drop a xs)"
  by (auto simp: py_slice_def py_adjust_def Let_def min_def nat_diff_distrib'
      simp flip: of_nat_add)

lemma chunk_content:
  assumes "0 < chunk_size" "0 \<le> chunk_overlap" "chunk_overlap < chunk_size"
  shows "page_content (chunk_at text chunk_size chunk_overlap k) =
           take (nat chunk_size) (drop (k * nat (chunk_size - chunk_overlap)) text)"
proof -
  define c where "c = nat chunk_size"
  define s where "s = nat (chunk_size - chunk_overlap)"
  have c: "chunk_size = int c" and s: "chunk_size - chunk_overlap = int s"
    using assms by (simp_all add: c_def s_def)
  have "py_slice text (int (k * s)) (int (k * s) + int c) = take c (drop (k * s) text)"
    by (rule py_slice_nat)
  then show ?thesis
    unfolding chunk_at_def s unfolding c by simp
qed

lemma less_num_chunks_nat:
  assumes "0 < chunk_size" "0 \<le> chunk_overlap" "chunk_overlap < chunk_size"
  shows "k < num_chunks n (chunk_size - chunk_overlap) \<longleftrightarrow>
           k * nat (chunk_size - chunk_overlap) < n"
proof -
  have "int (k * nat (chunk_size - chunk_overlap)) = int k * (chunk_size - chunk_overlap)"
    using assms by simp
  then have "k * nat (chunk_size - chunk_overlap) < n \<longleftrightarrow>
      int k * (chunk_size - chunk_overlap) < int n"
    by (metis of_nat_less_iff)
  then show ?thesis using less_num_chunks [of "chunk_size - chunk_overlap" k n] assms by simp
qed

text \<open>
  Claim C5, as the code has it. A non-empty text shorter than \<open>chunk_size\<close> is the text of
  the first chunk. It is the only chunk exactly when the text is no longer than the step
  \<open>chunk_size - chunk_overlap\<close>: otherwise the loop goes on with chunks that start inside
  the text already covered.
\<close>

theorem C5_short_text:
  assumes "0 < chunk_size" and "0 \<le> chunk_overlap" and "chunk_overlap < chunk_size"
    and "text \<noteq> []" and "int (length text) < chunk_size"
  shows "\<exists>chunks. split_text_to_chunks_with_indices text chunk_size chunk_overlap = Some chunks \<and>
           chunks \<noteq> [] \<and> page_content (hd chunks) = text \<and>
           (length chunks = 1 \<longleftrightarrow> int (length text) \<le> chunk_size - chunk_overlap)"
proof -
  let ?s = "chunk_size - chunk_overlap"
  let ?N = "num_chunks (length text) ?s"
  let ?chunks = "map (chunk_at text chunk_size chunk_overlap) [0..<?N]"
  have step: "0 < ?s" using assms by simp
  have ret: "split_text_to_chunks_with_indices text chunk_size chunk_overlap = Some ?chunks"
    using step by (rule split_closed)
  have pos: "0 < ?N"
    using less_num_chunks [OF step, of 0 "length text"] assms(4) by simp
  then have nonempty: "?chunks \<noteq> []" by simp
  have "hd ?chunks = chunk_at text chunk_size chunk_overlap 0"
    using pos by (simp add: hd_map upt_conv_Cons)
  then have first: "page_content (hd ?chunks) = text"
    using assms(5) chunk_content [OF assms(1-3), of "text" 0] by simp
  have "1 < ?N \<longleftrightarrow> ?s < int (length text)"
    using less_num_chunks [OF step, of 1 "length text"] by simp
  then have one: "length ?chunks = 1 \<longleftrightarrow> int (length text) \<le> ?s"
    using pos by auto
  show ?thesis
    using ret nonempty first one by blast
qed

theorem C5_short_text_witness:
  "(0::int) < 3 \<and> (0::int) \<le> 1 \<and> (1::int) < 3 \<and> ''ab'' \<noteq> [] \<and> int (length ''ab'') < 3 \<and>
   (\<exists>chunks. split_text_to_chunks_with_indices ''ab'' 3 1 = Some chunks \<and>
      chunks \<noteq> [] \<and> page_content (hd chunks) = ''ab'' \<and> length chunks = 1)"
  using C5_short_text [of 3 1 "''ab''"] by simp

text \<open>
  Claim C5 as the specification states it fails: \<^verbatim>\<open>"ab"\<close> is shorter than
  \<open>chunk_size = 3\<close>, and with \<open>chunk_overlap = 2\<close> the chunker returns two chunks,
  \<^verbatim>\<open>"ab"\<close> and \<^verbatim>\<open>"b"\<close>.
\<close>

theorem C5_short_text_counterexample:
  "(0::int) < 3 \<and> (0::int) \<le> 2 \<and> (2::int) < 3 \<and> ''ab'' \<noteq> [] \<and> int (length ''ab'') < 3 \<and>
   map_option (map page_content) (split_text_to_chunks_with_indices ''ab'' 3 2) =
     Some [''ab'', ''b'']"
  by (simp add: split_text_to_chunks_with_indices_def split_loop.simps py_slice_def py_adjust_def)

subsection \<open>The length of a chunk\<close>

text \<open>
  Claim C6, as the code has it. Chunk \<open>i\<close> has \<open>min(chunk_size, len(text) - i * step)\<close>
  characters, so no chunk is longer than \<open>chunk_size\<close>; a chunk is shorter as soon as its
  slice reaches past the end of the text, which with an overlap happens to several
  trailing chunks. Without overlap every chunk but the last has \<open>chunk_size\<close> characters.
\<close>

theorem C6_chunk_lengths:
  assumes "0 < chunk_size" and "0 \<le> chunk_overlap" and "chunk_overlap < chunk_size"
  shows "\<exists>chunks. split_text_to_chunks_with_indices text chunk_size chunk_overlap = Some chunks \<and>
           (\<forall>i < length chunks.
              int (length (page_content (chunks ! i))) =
                min chunk_size (int (length text) - int i * (chunk_size - chunk_overlap))) \<and>
           (\<forall>i < length chunks. int (length (page_content (chunks ! i))) \<le> chunk_size) \<and>
           (chunk_overlap = 0 \<longrightarrow>
              (\<forall>i. i + 1 < length chunks \<longrightarrow>
                 int (length (page_content (chunks ! i))) = chunk_size))"
proof -
  let ?s = "chunk_size - chunk_overlap"
  let ?N = "num_chunks (length text) ?s"
  let ?chunks = "map (chunk_at text chunk_size chunk_overlap) [0..<?N]"
  have ret: "split_text_to_chunks_with_indices text chunk_size chunk_overlap = Some ?chunks"
    using assms by (intro split_closed) simp
  have len: "int (length (page_content (?chunks ! i))) =
      min chunk_size (int (length text) - int i * ?s)"
    if "i < ?N" for i
  proof -
    have inside: "i * nat ?s < length text"
      using that less_num_chunks_nat [OF assms] by simp
    have "length (page_content (?chunks ! i)) = min (length text - i * nat ?s) (nat chunk_size)"
      using that by (simp add: chunk_content [OF assms])
    moreover have "int (i * nat ?s) = int i * ?s" using assms by simp
    ultimately show ?thesis using inside assms
      by (smt (verit) int_nat_eq of_nat_diff less_imp_le min_def of_nat_min)
  qed
  have exact: "int (length (page_content (?chunks ! i))) = chunk_size"
    if "chunk_overlap = 0" and "i + 1 < ?N" for i
  proof -
    have "int (i + 1) * ?s < int (length text)"
      using that(2) less_num_chunks [of ?s "i + 1" "length text"] assms by simp
    then have "chunk_size \<le> int (length text) - int i * ?s"
      using that(1) by (simp add: algebra_simps)
    moreover have "i < ?N" using that(2) by simp
    ultimately show ?thesis using len [of i] by simp
  qed
  show ?thesis
    using ret len exact by (intro exI [of _ ?chunks]) (simp add: min_def)
qed

theorem C6_chunk_lengths_witness:
  "(0::int) < 3 \<and> (0::int) \<le> 2 \<and> (2::int) < 3 \<and>
   (\<exists>chunks. split_text_to_chunks_with_indices ''abcde'' 3 2 = Some chunks \<and>
      (\<forall>i < length chunks.
          int (length (page_content (chunks ! i))) = min 3 (5 - int i)) \<and>
      (\<forall>i < length chunks. int (length (page_content (chunks ! i))) \<le> 3))"
  using C6_chunk_lengths [of 3 2 "''abcde''"] by simp

text \<open>
  Claim C6 as the specification states it fails: \<^verbatim>\<open>"abcde"\<close> with \<open>chunk_size = 3\<close> and
  \<open>chunk_overlap = 2\<close> gives chunks of 3, 3, 3, 2 and 1 characters, and the chunk of 2
  characters is not the last one.
\<close>

theorem C6_chunk_lengths_counterexample:
  "(0::int) < 3 \<and> (0::int) \<le> 2 \<and> (2::int) < 3 \<and>
   map_option (map (\<lambda>d. length (page_content d)))
     (split_text_to_chunks_with_indices ''abcde'' 3 2) = Some [3, 3, 3, 2, 1]"
  by (simp add: split_text_to_chunks_with_indices_def split_loop.simps py_slice_def py_adjust_def)

subsection \<open>The round trip\<close>

lemma concat_blocks:
  "concat (map (\<lambda>j. take s (drop (j * s) ys)) [0..<m]) = take (m * s) ys"
proof (induction m)
  case 0
  show ?case by simp
next
  case (Suc m)
  have "take (m * s) ys @ take s (drop (m * s) ys) = take (m * s + s) ys"
    by (simp add: take_add)
  with Suc show ?case by (simp add: add.commute)
qed

lemma round_trip:
  assumes "0 < chunk_size" and "0 \<le> chunk_overlap" and "chunk_overlap < chunk_size"
  shows "concat_dropping_overlap chunk_overlap
           (map page_content
              (map (chunk_at text chunk_size chunk_overlap)
                 [0..<num_chunks (length text) (chunk_size - chunk_overlap)])) = text"
proof -
  let ?s = "chunk_size - chunk_overlap"
  let ?N = "num_chunks (length text) ?s"
  let ?chunks = "map (chunk_at text chunk_size chunk_overlap) [0..<?N]"
  define c where "c = nat chunk_size"
  define ov where "ov = nat chunk_overlap"
  define s where "s = nat ?s"
  have cs: "c = ov + s" "0 < s"
    using assms by (simp_all add: c_def ov_def s_def)
  have step: "0 < ?s" using assms by simp
  have content: "page_content (chunk_at text chunk_size chunk_overlap k) =
      take c (drop (k * s) text)" for k
    by (simp add: chunk_content [OF assms] c_def s_def)
  show ?thesis
  proof (cases ?N)
    case 0
    then have "\<not> 0 < ?N" by simp
    then have "text = []"
      using less_num_chunks [OF step, of 0 "length text"] by simp
    then show ?thesis using 0 by (simp add: concat_dropping_overlap_def)
  next
    case (Suc m)
    have range: "[0..<Suc m] = 0 # map Suc [0..<m]"
      by (simp add: upt_conv_Cons map_Suc_upt del: upt_Suc)
    have piece: "drop ov (take c (drop (Suc j * s) text)) = take s (drop (j * s) (drop c text))"
      for j
    proof -
      have "drop ov (take c (drop (Suc j * s) text)) =
          take (c - ov) (drop (ov + Suc j * s) text)"
        by (simp add: drop_take)
      also have "c - ov = s" using cs by simp
      also have "ov + Suc j * s = j * s + c" using cs by simp
      finally show ?thesis by (simp add: add.commute)
    qed
    have "\<not> Suc m < ?N" using Suc by simp
    then have "\<not> int (Suc m) * ?s < int (length text)"
      using less_num_chunks [OF step, of "Suc m" "length text"] by simp
    moreover have "int (Suc m) * ?s = int (Suc m * s)"
      using step by (simp add: s_def algebra_simps)
    ultimately have "length text \<le> Suc m * s" by (metis of_nat_less_iff not_less)
    then have cover: "length text \<le> c + m * s" using cs by simp
    have "map page_content ?chunks =
        take c text # map (\<lambda>j. take c (drop (Suc j * s) text)) [0..<m]"
      unfolding Suc range by (simp add: content comp_def del: upt_Suc)
    then have "concat_dropping_overlap chunk_overlap (map page_content ?chunks)
        = take c text @ concat (map (\<lambda>j. drop ov (take c (drop (Suc j * s) text))) [0..<m])"
      by (simp add: concat_dropping_overlap_def ov_def comp_def del: upt_Suc)
    also have "\<dots> =
        take c text @ concat (map (\<lambda>j. take s (drop (j * s) (drop c text))) [0..<m])"
      by (simp only: piece)
    also have "\<dots> = take c text @ take (m * s) (drop c text)"
      by (simp only: concat_blocks)
    also have "\<dots> = take (c + m * s) text"
      by (simp add: take_add)
    also have "\<dots> = text" using cover by simp
    finally show ?thesis .
  qed
qed

text \<open>
  Claim C2. Under the precondition on the parameters the chunker returns, and its chunks
  in the order of emission, the first one whole and every later one without its leading
  \<open>chunk_overlap\<close> characters, concatenate to the text.
\<close>

theorem C2_round_trip:
  assumes "0 < chunk_size" and "0 \<le> chunk_overlap" and "chunk_overlap < chunk_size"
  shows "\<exists>chunks. split_text_to_chunks_with_indices text chunk_size chunk_overlap = Some chunks \<and>
           concat_dropping_overlap chunk_overlap (map page_content chunks) = text"
  using assms split_closed [of chunk_size chunk_overlap "text"] round_trip [OF assms, of "text"]
  by simp

theorem C2_round_trip_witness:
  "(0::int) < 3 \<and> (0::int) \<le> 1 \<and> (1::int) < 3 \<and>
   (\<exists>chunks. split_text_to_chunks_with_indices ''abcdef'' 3 1 = Some chunks \<and>
      concat_dropping_overlap 1 (map page_content chunks) = ''abcdef'')"
  using C2_round_trip [of 3 1 "''abcdef''"] by simp

section \<open>The lookup by index\<close>

text \<open>
  The metadata indices of the chunker's chunks are \<open>0, 1, \<dots>\<close> in the order of emission,
  whatever the parameters, whenever the chunker returns.
\<close>

lemma split_indices:
  assumes "split_text_to_chunks_with_indices text chunk_size chunk_overlap = Some chunks"
  shows "map meta_index chunks = map (\<lambda>k. Some (int k)) [0..<length chunks]"
proof (cases "chunk_overlap < chunk_size")
  case True
  then have "chunks = map (chunk_at text chunk_size chunk_overlap)
                        [0..<num_chunks (length text) (chunk_size - chunk_overlap)]"
    using assms split_closed [of chunk_size chunk_overlap "text"] by simp
  then show ?thesis by (simp add: chunk_at_def)
next
  case False
  then have "text = []"
    using assms split_returns_iff [of "text" chunk_size chunk_overlap] by simp
  then have "chunks = []"
    using assms by (simp add: split_text_to_chunks_with_indices_def split_loop.simps)
  then show ?thesis by simp
qed

lemma split_index_range:
  assumes "split_text_to_chunks_with_indices text chunk_size chunk_overlap = Some chunks"
    and "d \<in> set chunks" and "meta_index d = Some t"
  shows "0 \<le> t \<and> t < int (length chunks)"
proof -
  have "Some t \<in> set (map meta_index chunks)" using assms(2,3) by force
  then have "Some t \<in> set (map (\<lambda>k. Some (int k)) [0..<length chunks])"
    using split_indices [OF assms(1)] by simp
  then show ?thesis by auto
qed

lemma get_chunk_by_index_None:
  "get_chunk_by_index vs target_index = None \<longleftrightarrow>
     (\<forall>d \<in> set (all_docs vs). meta_index d \<noteq> Some target_index)"
  by (auto simp: get_chunk_by_index_def find_None_iff)

lemma get_chunk_by_index_Some:
  "get_chunk_by_index vs target_index = Some d \<Longrightarrow>
     d \<in> set (all_docs vs) \<and> meta_index d = Some target_index"
  by (auto simp: get_chunk_by_index_def find_Some_iff)

text \<open>
  Claim C10. The lookup answers \<open>None\<close> exactly when no document of the full scan has the
  target as its metadata index; a document it returns is one of the scan and has the
  target as its index. For a store that holds the chunks of one run of the chunker, a
  negative target and a target at or beyond the number of chunks are answered \<open>None\<close>.
  The lookup is a search through a list: it has no failure of its own.
\<close>

theorem C10_get_chunk_by_index:
  "(get_chunk_by_index vs target_index = None \<longleftrightarrow>
      (\<forall>d \<in> set (all_docs vs). meta_index d \<noteq> Some target_index)) \<and>
   (\<forall>d. get_chunk_by_index vs target_index = Some d \<longrightarrow>
      d \<in> set (all_docs vs) \<and> meta_index d = Some target_index) \<and>
   (\<forall>text chunk_size chunk_overlap chunks.
      split_text_to_chunks_with_indices text chunk_size chunk_overlap = Some chunks \<and>
      set (all_docs vs) = set chunks \<and>
      (target_index < 0 \<or> int (length chunks) \<le> target_index)
      \<longrightarrow> get_chunk_by_index vs target_index = None)"
proof (intro conjI allI impI)
  show "get_chunk_by_index vs target_index = None \<longleftrightarrow>
      (\<forall>d \<in> set (all_docs vs). meta_index d \<noteq> Some target_index)"
    by (rule get_chunk_by_index_None)
next
  fix d assume "get_chunk_by_index vs target_index = Some d"
  then show "d \<in> set (all_docs vs)" and "meta_index d = Some target_index"
    by (simp_all add: get_chunk_by_index_Some)
next
  fix source chunk_size chunk_overlap chunks
  assume a: "split_text_to_chunks_with_indices source chunk_size chunk_overlap = Some chunks \<and>
      set (all_docs vs) = set chunks \<and>
      (target_index < 0 \<or> int (length chunks) \<le> target_index)"
  then have "\<forall>d \<in> set (all_docs vs). meta_index d \<noteq> Some target_index"
    using split_index_range [of source chunk_size chunk_overlap chunks _ target_index]
    by fastforce
  then show "get_chunk_by_index vs target_index = None"
    by (simp add: get_chunk_by_index_None)
qed

theorem C10_get_chunk_by_index_witness:
  "get_chunk_by_index
     (store_of [\<lparr>page_content = ''cd'', meta_index = Some 1, meta_text = Some ''abcd''\<rparr>,
                \<lparr>page_content = ''x'', meta_index = None, meta_text = None\<rparr>,
                \<lparr>page_content = ''ab'', meta_index = Some 0, meta_text = Some ''abcd''\<rparr>]) 0
     = Some \<lparr>page_content = ''ab'', meta_index = Some 0, meta_text = Some ''abcd''\<rparr> \<and>
   get_chunk_by_index
     (store_of [\<lparr>page_content = ''ab'', meta_index = Some 0, meta_text = Some ''abcd''\<rparr>,
                \<lparr>page_content = ''cd'', meta_index = Some 1, meta_text = Some ''abcd''\<rparr>]) 2
     = None"
proof
  let ?docs = "[\<lparr>page_content = ''cd'', meta_index = Some 1, meta_text = Some ''abcd''\<rparr>,
                \<lparr>page_content = ''x'', meta_index = None, meta_text = None\<rparr>,
                \<lparr>page_content = ''ab'', meta_index = Some 0, meta_text = Some ''abcd''\<rparr>]"
  have docs: "all_docs (store_of ?docs) = ?docs"
    by (simp add: all_docs_def store_of_def)
  have "get_chunk_by_index (store_of ?docs) 0 \<noteq> None"
    using C10_get_chunk_by_index [of "store_of ?docs" 0] by (simp add: docs)
  then obtain d where d: "get_chunk_by_index (store_of ?docs) 0 = Some d" by blast
  then have "d \<in> set (all_docs (store_of ?docs)) \<and> meta_index d = Some 0"
    using C10_get_chunk_by_index [of "store_of ?docs" 0] by blast
  then have "d = \<lparr>page_content = ''ab'', meta_index = Some 0, meta_text = Some ''abcd''\<rparr>"
    by (auto simp: docs)
  with d show "get_chunk_by_index (store_of ?docs) 0 =
      Some \<lparr>page_content = ''ab'', meta_index = Some 0, meta_text = Some ''abcd''\<rparr>"
    by simp
next
  let ?chunks = "[\<lparr>page_content = ''ab'', meta_index = Some 0, meta_text = Some ''abcd''\<rparr>,
                  \<lparr>page_content = ''cd'', meta_index = Some 1, meta_text = Some ''abcd''\<rparr>]"
  have run: "split_text_to_chunks_with_indices ''abcd'' 2 0 = Some ?chunks"
    by (simp add: split_text_to_chunks_with_indices_def split_loop.simps py_slice_def
        py_adjust_def)
  have docs: "set (all_docs (store_of ?chunks)) = set ?chunks"
    by (simp add: all_docs_def store_of_def)
  have "int (length ?chunks) \<le> 2" by simp
  with run docs show "get_chunk_by_index (store_of ?chunks) 2 = None"
    using C10_get_chunk_by_index [of "store_of ?chunks" 2] by blast
qed

section \<open>Retrieval with a window of neighbours\<close>

subsection \<open>The window of a hit\<close>

lemma add_neighbors_nonempty:
  "neighbor_chunks \<noteq> [] \<Longrightarrow> add_neighbors vs current_index neighbor_chunks i \<noteq> []"
  by (simp add: add_neighbors_def Let_def split: option.splits)

lemma foldl_add_neighbors_nonempty:
  "neighbor_chunks \<noteq> [] \<Longrightarrow> foldl (add_neighbors vs current_index) neighbor_chunks is \<noteq> []"
  by (induction "is" arbitrary: neighbor_chunks) (simp_all add: add_neighbors_nonempty)

lemma collect_neighbors_nonempty: "collect_neighbors vs chunk current_index num_neighbors \<noteq> []"
  by (simp add: collect_neighbors_def foldl_add_neighbors_nonempty)

lemma sort_by_index_nonempty: "neighbor_chunks \<noteq> [] \<Longrightarrow> sort_by_index neighbor_chunks \<noteq> []"
  by (metis sort_by_index_def length_sort length_0_conv)

text \<open>The list of neighbours holds the hit, so \<^verbatim>\<open>neighbor_chunks[0]\<close> never raises.\<close>

lemma context_window_returns:
  "\<exists>concatenated_text.
     context_window vs chunk current_index num_neighbors chunk_size chunk_overlap =
       Inr concatenated_text"
proof -
  have "sort_by_index (collect_neighbors vs chunk current_index num_neighbors) \<noteq> []"
    by (intro sort_by_index_nonempty collect_neighbors_nonempty)
  then show ?thesis
    by (auto simp: context_window_def concatenate_chunks_def split: list.splits)
qed

lemma context_window_zero:
  "context_window vs chunk current_index 0 chunk_size chunk_overlap = Inr (page_content chunk)"
  by (simp add: context_window_def collect_neighbors_def sort_by_index_def concatenate_chunks_def)

lemma retrieve_loop_zero:
  "retrieve_loop vs hits 0 chunk_size chunk_overlap result_sequences =
     Inr (result_sequences @ map page_content (filter (\<lambda>h. meta_index h \<noteq> None) hits))"
  by (induction hits arbitrary: result_sequences)
     (auto simp: context_window_zero split: option.splits)

text \<open>
  Claim C8. With \<open>num_neighbors = 0\<close> the window of a hit is the text of the hit, whatever
  the store holds and whatever \<open>chunk_size\<close> and \<open>chunk_overlap\<close> are; and the retrieval
  returns the texts of the hits that have an index.
\<close>

theorem C8_zero_neighbors:
  "context_window vs chunk current_index 0 chunk_size chunk_overlap = Inr (page_content chunk) \<and>
   retrieve_with_context_overlap vs query k 0 chunk_size chunk_overlap =
     Inr (map page_content
            (filter (\<lambda>h. meta_index h \<noteq> None) (get_relevant_documents vs k query)))"
  by (simp add: context_window_zero retrieve_loop_zero retrieve_with_context_overlap_def)

theorem C8_zero_neighbors_witness:
  "context_window
     (store_of [\<lparr>page_content = ''abc'', meta_index = Some 0, meta_text = None\<rparr>,
                \<lparr>page_content = ''cde'', meta_index = Some 1, meta_text = None\<rparr>])
     \<lparr>page_content = ''cde'', meta_index = Some 1, meta_text = None\<rparr> 1 0 3 1 = Inr ''cde'' \<and>
   retrieve_with_context_overlap
     (store_of [\<lparr>page_content = ''abc'', meta_index = Some 0, meta_text = None\<rparr>,
                \<lparr>page_content = ''cde'', meta_index = Some 1, meta_text = None\<rparr>])
     ''q'' 2 0 3 1 = Inr [''abc'', ''cde'']"
  using C8_zero_neighbors
    [of "store_of [\<lparr>page_content = ''abc'', meta_index = Some 0, meta_text = None\<rparr>,
                \<lparr>page_content = ''cde'', meta_index = Some 1, meta_text = None\<rparr>]"
        "\<lparr>page_content = ''cde'', meta_index = Some 1, meta_text = None\<rparr>" 1 3 1 "''q''" 2]
  by (simp add: get_relevant_documents_def store_of_def)

subsection \<open>The loop over the hits\<close>

lemma retrieve_loop_windows:
  "\<exists>windows.
     retrieve_loop vs hits num_neighbors chunk_size chunk_overlap result_sequences =
       Inr (result_sequences @ windows) \<and>
     map Inr windows =
       map (\<lambda>(h, i). context_window vs h i num_neighbors chunk_size chunk_overlap)
         (hits_with_index hits)"
proof (induction hits arbitrary: result_sequences)
  case Nil
  show ?case by (simp add: hits_with_index_def)
next
  case (Cons h hits)
  show ?case
  proof (cases "meta_index h")
    case None
    then show ?thesis using Cons [of result_sequences] by (simp add: hits_with_index_def)
  next
    case (Some i)
    obtain t where t: "context_window vs h i num_neighbors chunk_size chunk_overlap = Inr t"
      using context_window_returns by blast
    obtain windows where
      "retrieve_loop vs hits num_neighbors chunk_size chunk_overlap (result_sequences @ [t]) =
         Inr ((result_sequences @ [t]) @ windows)"
      "map Inr windows =
         map (\<lambda>(h, i). context_window vs h i num_neighbors chunk_size chunk_overlap)
           (hits_with_index hits)"
      using Cons [of "result_sequences @ [t]"] by blast
    then show ?thesis using Some t
      by (intro exI [of _ "t # windows"]) (simp add: hits_with_index_def)
  qed
qed

lemma length_hits_with_index:
  "length (hits_with_index hits) = length (filter (\<lambda>h. meta_index h \<noteq> None) hits)"
  by (induction hits) (auto simp: hits_with_index_def split: option.splits)

text \<open>
  Claim C9. The retrieval raises nothing and returns one window for every hit that has an
  index in its metadata, in the order of the hits; a hit without an index adds nothing. So
  there are as many windows as hits with an index, and at most \<open>k\<close> when the search keeps
  to its bound of \<open>k\<close> hits.
\<close>

theorem C9_retrieve_windows:
  "\<exists>windows.
     retrieve_with_context_overlap vs query k num_neighbors chunk_size chunk_overlap =
       Inr windows \<and>
     map Inr windows =
       map (\<lambda>(h, i). context_window vs h i num_neighbors chunk_size chunk_overlap)
         (hits_with_index (get_relevant_documents vs k query)) \<and>
     length windows =
       length (filter (\<lambda>h. meta_index h \<noteq> None) (get_relevant_documents vs k query)) \<and>
     (int (length (get_relevant_documents vs k query)) \<le> k \<longrightarrow> int (length windows) \<le> k)"
proof -
  let ?hits = "get_relevant_documents vs k query"
  obtain windows where w:
    "retrieve_loop vs ?hits num_neighbors chunk_size chunk_overlap [] = Inr ([] @ windows)"
    "map Inr windows =
       map (\<lambda>(h, i). context_window vs h i num_neighbors chunk_size chunk_overlap)
         (hits_with_index ?hits)"
    using retrieve_loop_windows [of vs ?hits num_neighbors chunk_size chunk_overlap "[]"]
    by blast
  have "length (map Inr windows :: (py_error + string) list) = length (hits_with_index ?hits)"
    by (simp only: w(2) length_map)
  then have len: "length windows = length (filter (\<lambda>h. meta_index h \<noteq> None) ?hits)"
    by (simp add: length_hits_with_index)
  have "length windows \<le> length ?hits"
    unfolding len by (rule length_filter_le)
  then have "int (length ?hits) \<le> k \<longrightarrow> int (length windows) \<le> k" by linarith
  with w len show ?thesis
    by (intro exI [of _ windows]) (simp add: retrieve_with_context_overlap_def)
qed

theorem C9_retrieve_windows_witness:
  "int (length (get_relevant_documents example_store 3 ''q'')) \<le> 3 \<and>
   (\<exists>windows. retrieve_with_context_overlap example_store ''q'' 3 1 2 1 = Inr windows \<and>
      length windows = 2 \<and> int (length windows) \<le> 3) \<and>
   retrieve_with_context_overlap example_store ''q'' 3 1 2 1 = Inr [''abcd'', ''cd'']"
proof (intro conjI)
  have hits: "get_relevant_documents example_store 3 ''q'' =
     [\<lparr>page_content = ''bc'', meta_index = Some 1, meta_text = Some ''abcd''\<rparr>,
      \<lparr>page_content = ''zz'', meta_index = None, meta_text = None\<rparr>,
      \<lparr>page_content = ''d'', meta_index = Some 3, meta_text = Some ''abcd''\<rparr>]"
    by (simp add: get_relevant_documents_def example_store_def store_of_def)
  show bound: "int (length (get_relevant_documents example_store 3 ''q'')) \<le> 3"
    by (simp add: hits)
  obtain windows where w:
    "retrieve_with_context_overlap example_store ''q'' 3 1 2 1 = Inr windows"
    "length windows =
       length (filter (\<lambda>h. meta_index h \<noteq> None) (get_relevant_documents example_store 3 ''q''))"
    "int (length (get_relevant_documents example_store 3 ''q'')) \<le> 3 \<longrightarrow>
       int (length windows) \<le> 3"
    using C9_retrieve_windows [of example_store "''q''" 3 1 2 1] by blast
  from w(2) have "length windows = 2" by (simp add: hits)
  with w(1) w(3) bound
  show "\<exists>windows. retrieve_with_context_overlap example_store ''q'' 3 1 2 1 = Inr windows \<and>
      length windows = 2 \<and> int (length windows) \<le> 3"
    by blast
  show "retrieve_with_context_overlap example_store ''q'' 3 1 2 1 = Inr [''abcd'', ''cd'']"
    by code_simp
qed

subsection \<open>The trim of the overlap\<close>

text \<open>
  Consecutive chunks share \<open>chunk_overlap\<close> characters: the last ones of the earlier
  chunk are the first ones of the later chunk. The concatenation cuts
  \<open>chunk_size - chunk_overlap\<close> characters, the step, from the front of every chunk after
  the first. The two numbers agree when \<open>chunk_size\<close> is twice \<open>chunk_overlap\<close>, as it is
  for the defaults 200 and 100; the lemmas of this subsection show that the concatenation
  is then the span of the source text.
\<close>

lemma py_slice_from_nat: "py_slice_from xs (int n) = drop n xs"
  by (simp add: py_slice_from_def py_adjust_def min_def)

lemma foldl_append_concat:
  "foldl (\<lambda>acc x. acc @ f x) a xs = a @ concat (map f xs)"
  by (induction xs arbitrary: a) simp_all

lemma concatenate_chunks_Cons:
  "concatenate_chunks (first # rest) chunk_size chunk_overlap =
     Inr (page_content first @
          concat (map (\<lambda>d. py_slice_from (page_content d) (chunk_size - chunk_overlap)) rest))"
  by (simp add: concatenate_chunks_def foldl_append_concat)

lemma concatenate_chunks_dropping:
  assumes "chunk_overlap \<le> chunk_size" and "chunks \<noteq> []"
  shows "concatenate_chunks chunks chunk_size chunk_overlap =
           Inr (concat_dropping_overlap (chunk_size - chunk_overlap) (map page_content chunks))"
proof -
  obtain first rest where chunks: "chunks = first # rest"
    using assms(2) by (cases chunks) auto
  have "py_slice_from xs (chunk_size - chunk_overlap) = drop (nat (chunk_size - chunk_overlap)) xs"
    for xs :: string
    using assms(1) py_slice_from_nat [of xs "nat (chunk_size - chunk_overlap)"] by simp
  then show ?thesis
    by (simp add: chunks concatenate_chunks_Cons concat_dropping_overlap_def comp_def)
qed

lemma merge_all_chunks_when_double:
  assumes "0 < chunk_overlap" and "chunk_size = 2 * chunk_overlap" and "text \<noteq> []"
  shows "\<exists>chunks. split_text_to_chunks_with_indices text chunk_size chunk_overlap = Some chunks \<and>
           concatenate_chunks chunks chunk_size chunk_overlap = Inr text"
proof -
  let ?chunks = "map (chunk_at text chunk_size chunk_overlap)
                   [0..<num_chunks (length text) (chunk_size - chunk_overlap)]"
  have valid: "0 < chunk_size" "0 \<le> chunk_overlap" "chunk_overlap < chunk_size"
    using assms by simp_all
  have ret: "split_text_to_chunks_with_indices text chunk_size chunk_overlap = Some ?chunks"
    using valid by (intro split_closed) simp
  have "0 < num_chunks (length text) (chunk_size - chunk_overlap)"
    using less_num_chunks [of "chunk_size - chunk_overlap" 0 "length text"] valid assms(3) by simp
  then have "?chunks \<noteq> []" by simp
  then have merged: "concatenate_chunks ?chunks chunk_size chunk_overlap =
      Inr (concat_dropping_overlap (chunk_size - chunk_overlap) (map page_content ?chunks))"
    using valid by (intro concatenate_chunks_dropping) simp_all
  have whole: "concat_dropping_overlap chunk_overlap (map page_content ?chunks) = text"
    using valid by (rule round_trip)
  have "chunk_size - chunk_overlap = chunk_overlap" using assms(2) by simp
  then have "concat_dropping_overlap (chunk_size - chunk_overlap) (map page_content ?chunks) = text"
    using whole by metis
  with merged ret show ?thesis by simp
qed

text \<open>
  A store that holds the chunks of one run of the chunker answers a lookup with the chunk
  of that index, and the neighbours of the hit \<open>i\<close> up to the distance \<open>m\<close> are the
  chunks \<open>i - m, \<dots>, i + m\<close> that exist, already in the order of their indices.
\<close>

lemma lookup_in_full_store:
  assumes "set (all_docs vs) = set (map (chunk_at text chunk_size chunk_overlap) [0..<N])"
  shows "get_chunk_by_index vs t =
           (if 0 \<le> t \<and> t < int N then Some (chunk_at text chunk_size chunk_overlap (nat t))
            else None)"
proof (cases "0 \<le> t \<and> t < int N")
  case True
  then have "nat t < N" by linarith
  then have "chunk_at text chunk_size chunk_overlap (nat t) \<in> set (all_docs vs)"
    unfolding assms by simp
  moreover have "meta_index (chunk_at text chunk_size chunk_overlap (nat t)) = Some t"
    using True by (simp add: chunk_at_def)
  ultimately have "get_chunk_by_index vs t \<noteq> None"
    unfolding get_chunk_by_index_None by blast
  then obtain d where d: "get_chunk_by_index vs t = Some d" by blast
  then have "d \<in> set (all_docs vs)" and idx: "meta_index d = Some t"
    using get_chunk_by_index_Some by blast+
  then obtain j where "d = chunk_at text chunk_size chunk_overlap j"
    unfolding assms by auto
  moreover from this idx have "j = nat t" by (simp add: chunk_at_def)
  ultimately show ?thesis using d True by simp
next
  case False
  have "meta_index d \<noteq> Some t" if "d \<in> set (all_docs vs)" for d
  proof -
    have "d \<in> chunk_at text chunk_size chunk_overlap ` {0..<N}"
      using that unfolding assms by simp
    then obtain j where "j < N" "d = chunk_at text chunk_size chunk_overlap j"
      by auto
    then show ?thesis using False by (auto simp: chunk_at_def)
  qed
  then have "get_chunk_by_index vs t = None" by (simp add: get_chunk_by_index_None)
  then show ?thesis using False by auto
qed

lemma collect_neighbors_full_store:
  assumes "set (all_docs vs) = set (map (chunk_at text chunk_size chunk_overlap) [0..<N])"
    and "i < N"
  shows "collect_neighbors vs (chunk_at text chunk_size chunk_overlap i) (int i) (int m) =
           map (chunk_at text chunk_size chunk_overlap) [i - m ..< min N (i + m + 1)]"
proof (induction m)
  case 0
  have "[i..<min N (i + 1)] = [i]" using assms(2) by (simp add: min_def upt_conv_Cons)
  then show ?case by (simp add: collect_neighbors_def)
next
  case (Suc m)
  let ?c = "chunk_at text chunk_size chunk_overlap"
  have range: "[1..int (Suc m)] = [1..int m] @ [int m + 1]"
    using upto_rec2 [of 1 "int (Suc m)"] by (simp add: add.commute)
  have prev: "get_chunk_by_index vs (int i - (int m + 1)) =
      (if Suc m \<le> i then Some (?c (i - Suc m)) else None)"
    unfolding lookup_in_full_store [OF assms(1)] using assms(2)
    by (auto simp: nat_diff_distrib' intro!: arg_cong [where f = ?c])
  have nxt: "get_chunk_by_index vs (int i + (int m + 1)) =
      (if i + Suc m < N then Some (?c (i + Suc m)) else None)"
    unfolding lookup_in_full_store [OF assms(1)]
    by (auto simp: nat_add_distrib intro!: arg_cong [where f = ?c])
  have lower: "(if Suc m \<le> i then ?c (i - Suc m) # map ?c [i - m ..< b] else map ?c [i - m ..< b])
      = map ?c [i - Suc m ..< b]" if "i - m < b" for b
    using that by (auto simp: upt_conv_Cons Suc_diff_Suc)
  have upper: "(if i + Suc m < N then map ?c [a ..< min N (i + m + 1)] @ [?c (i + Suc m)]
                else map ?c [a ..< min N (i + m + 1)])
      = map ?c [a ..< min N (i + Suc m + 1)]" if "a \<le> i" for a
  proof (cases "i + Suc m < N")
    case True
    then have "min N (i + m + 1) = i + m + 1" and "min N (i + Suc m + 1) = Suc (i + m + 1)"
      by simp_all
    then show ?thesis using True that by (simp add: upt_Suc_append)
  next
    case False
    then have "min N (i + m + 1) = N" and "min N (i + Suc m + 1) = N" by simp_all
    then show ?thesis using False by simp
  qed
  have "collect_neighbors vs (?c i) (int i) (int (Suc m)) =
      add_neighbors vs (int i) (map ?c [i - m ..< min N (i + m + 1)]) (int m + 1)"
    using Suc by (simp add: collect_neighbors_def range del: of_nat_Suc)
  also have "\<dots> = map ?c [i - Suc m ..< min N (i + Suc m + 1)]"
  proof -
    let ?L = "map ?c [i - m ..< min N (i + m + 1)]"
    have "i - m < min N (i + m + 1)" using assms(2) by (auto simp: min_def)
    then have with_prev:
      "(case get_chunk_by_index vs (int i - (int m + 1)) of
          Some prev_chunk \<Rightarrow> prev_chunk # ?L | None \<Rightarrow> ?L) =
       map ?c [i - Suc m ..< min N (i + m + 1)]"
      using lower [of "min N (i + m + 1)"] unfolding prev
      by (cases "Suc m \<le> i") (simp_all del: upt_Suc)
    have "add_neighbors vs (int i) ?L (int m + 1) =
        (case get_chunk_by_index vs (int i + (int m + 1)) of
           Some next_chunk \<Rightarrow> map ?c [i - Suc m ..< min N (i + m + 1)] @ [next_chunk]
         | None \<Rightarrow> map ?c [i - Suc m ..< min N (i + m + 1)])"
      by (simp only: add_neighbors_def Let_def with_prev)
    also have "\<dots> = map ?c [i - Suc m ..< min N (i + Suc m + 1)]"
      using upper [of "i - Suc m"] unfolding nxt
      by (cases "i + Suc m < N") (simp_all del: upt_Suc)
    finally show ?thesis .
  qed
  finally show ?case .
qed

lemma sort_by_index_chunks:
  "sort_by_index (map (chunk_at text chunk_size chunk_overlap) [a..<b]) =
     map (chunk_at text chunk_size chunk_overlap) [a..<b]"
proof -
  have keys: "map (\<lambda>x. case meta_index x of Some i \<Rightarrow> i | None \<Rightarrow> 0)
          (map (chunk_at text chunk_size chunk_overlap) [a..<b]) = map int [a..<b]"
    by (simp add: chunk_at_def)
  have "sorted (map int [a..<b])"
    by (simp add: sorted_map sorted_wrt_mono_rel [OF _ sorted_wrt_upt])
  then show ?thesis
    unfolding sort_by_index_def by (intro sort_key_id_if_sorted) (simp only: keys)
qed

lemma concat_window:
  assumes "lo \<le> hi"
  shows "take (2 * s) (drop (lo * s) text) @
           concat (map (\<lambda>j. drop s (take (2 * s) (drop (j * s) text))) [Suc lo..<Suc hi]) =
         take ((hi - lo + 2) * s) (drop (lo * s) text)"
proof -
  let ?ys = "drop (lo * s) text"
  have piece: "drop s (take (2 * s) (drop ((t + Suc lo) * s) text)) =
      take s (drop (t * s) (drop (2 * s) ?ys))" for t
  proof -
    have "drop s (take (2 * s) (drop ((t + Suc lo) * s) text)) =
        take s (drop (s + (t + Suc lo) * s) text)"
      by (simp add: drop_take)
    also have "s + (t + Suc lo) * s = lo * s + (2 * s + t * s)" by (simp add: algebra_simps)
    finally show ?thesis by (simp add: add.commute add.left_commute)
  qed
  have "[Suc lo..<Suc hi] = map (\<lambda>t. t + Suc lo) [0..<hi - lo]"
    using assms map_add_upt [of "Suc lo" "hi - lo"] by (simp del: upt_Suc)
  then have "concat (map (\<lambda>j. drop s (take (2 * s) (drop (j * s) text))) [Suc lo..<Suc hi]) =
      concat (map (\<lambda>t. take s (drop (t * s) (drop (2 * s) ?ys))) [0..<hi - lo])"
    by (simp only: map_map comp_def piece)
  also have "\<dots> = take ((hi - lo) * s) (drop (2 * s) ?ys)"
    by (rule concat_blocks)
  finally have "take (2 * s) ?ys @
      concat (map (\<lambda>j. drop s (take (2 * s) (drop (j * s) text))) [Suc lo..<Suc hi]) =
      take (2 * s + (hi - lo) * s) ?ys"
    by (simp add: take_add del: upt_Suc)
  moreover have "2 * s + (hi - lo) * s = (hi - lo + 2) * s" by (simp add: algebra_simps)
  ultimately show ?thesis by (simp only:)
qed

lemma take_span:
  assumes "A \<le> B" and "B < length xs"
  shows "take (B + min (length xs - B) k - A) (drop A xs) = take (B - A + k) (drop A xs)"
proof (cases "B + k \<le> length xs")
  case True
  then have "min (length xs - B) k = k" by simp
  then show ?thesis using assms by simp
next
  case False
  then have "min (length xs - B) k = length xs - B" by simp
  then have "B + min (length xs - B) k - A = length (drop A xs)" using assms by simp
  moreover have "length (drop A xs) \<le> B - A + k" using False assms by simp
  ultimately show ?thesis by simp
qed

lemma window_when_double:
  assumes "0 < chunk_overlap" and "chunk_size = 2 * chunk_overlap"
    and "split_text_to_chunks_with_indices text chunk_size chunk_overlap = Some chunks"
    and "set (all_docs vs) = set chunks" and "i < length chunks"
  shows "context_window vs (chunks ! i) (int i) (int m) chunk_size chunk_overlap =
     Inr (py_slice text (int (i - m) * (chunk_size - chunk_overlap))
            (int (min (length chunks - 1) (i + m)) * (chunk_size - chunk_overlap) +
             int (length (page_content (chunks ! min (length chunks - 1) (i + m))))))"
proof -
  let ?c = "chunk_at text chunk_size chunk_overlap"
  define s where "s = nat chunk_overlap"
  define N where "N = num_chunks (length text) (chunk_size - chunk_overlap)"
  define lo where "lo = i - m"
  define hi where "hi = min (N - 1) (i + m)"
  have valid: "0 < chunk_size" "0 \<le> chunk_overlap" "chunk_overlap < chunk_size"
    using assms(1,2) by simp_all
  have step: "chunk_size - chunk_overlap = int s" and size: "nat chunk_size = 2 * s"
    and step_nat: "nat (chunk_size - chunk_overlap) = s"
    using assms(1,2) by (simp_all add: s_def)
  have chunks: "chunks = map ?c [0..<N]"
    using assms(3) split_closed [of chunk_size chunk_overlap "text"] valid by (simp add: N_def)
  then have i: "i < N" using assms(5) by simp
  have content: "page_content (?c j) = take (2 * s) (drop (j * s) text)" for j
    using chunk_content [OF valid, of "text" j] by (simp add: size step_nat)
  have bounds: "lo \<le> hi" "hi < N" "min N (i + m + 1) = Suc hi"
    using i by (auto simp: lo_def hi_def min_def)
  have "collect_neighbors vs (chunks ! i) (int i) (int m) = map ?c [lo..<Suc hi]"
    using collect_neighbors_full_store [of vs "text" chunk_size chunk_overlap N i m]
      assms(4) i bounds(3) by (simp add: chunks lo_def del: upt_Suc)
  also have "[lo..<Suc hi] = lo # [Suc lo..<Suc hi]"
    using bounds(1) by (simp add: upt_conv_Cons del: upt_Suc)
  finally have "context_window vs (chunks ! i) (int i) (int m) chunk_size chunk_overlap =
      concatenate_chunks (?c lo # map ?c [Suc lo..<Suc hi]) chunk_size chunk_overlap"
    using sort_by_index_chunks [of "text" chunk_size chunk_overlap lo "Suc hi"]
      upt_conv_Cons [of lo "Suc hi"] bounds(1)
    by (simp add: context_window_def del: upt_Suc)
  also have "\<dots> = Inr (take (2 * s) (drop (lo * s) text) @
      concat (map (\<lambda>j. drop s (take (2 * s) (drop (j * s) text))) [Suc lo..<Suc hi]))"
    by (simp add: concatenate_chunks_Cons content step py_slice_from_nat comp_def del: upt_Suc)
  also have "\<dots> = Inr (take ((hi - lo + 2) * s) (drop (lo * s) text))"
    by (simp only: concat_window [OF bounds(1)])
  finally have window: "context_window vs (chunks ! i) (int i) (int m) chunk_size chunk_overlap =
      Inr (take ((hi - lo + 2) * s) (drop (lo * s) text))" .
  have inside: "hi * s < length text"
    using bounds(2) less_num_chunks_nat [OF valid, of hi "length text"]
    by (simp add: N_def step_nat)
  have le: "lo * s \<le> hi * s" using bounds(1) by simp
  have last_len: "length (page_content (chunks ! hi)) = min (length text - hi * s) (2 * s)"
    using bounds(2) by (simp add: chunks content)
  have "py_slice text (int (lo * s)) (int (lo * s) + int (hi * s + min (length text - hi * s) (2 * s) - lo * s))
      = take (hi * s + min (length text - hi * s) (2 * s) - lo * s) (drop (lo * s) text)"
    by (rule py_slice_nat)
  also have "\<dots> = take (hi * s - lo * s + 2 * s) (drop (lo * s) text)"
    using le inside by (rule take_span)
  also have "hi * s - lo * s + 2 * s = (hi - lo + 2) * s"
    by (simp add: algebra_simps diff_mult_distrib)
  finally have span: "py_slice text (int (lo * s))
      (int (lo * s) + int (hi * s + min (length text - hi * s) (2 * s) - lo * s))
      = take ((hi - lo + 2) * s) (drop (lo * s) text)" .
  have "int A + int (B + K - A) = int B + int K" if "A \<le> B" for A B K :: nat
    using that by linarith
  from this [OF le]
  have "int (lo * s) + int (hi * s + min (length text - hi * s) (2 * s) - lo * s) =
      int (hi * s) + int (min (length text - hi * s) (2 * s))" .
  then have "py_slice text (int lo * int s)
      (int hi * int s + int (length (page_content (chunks ! hi)))) =
      take ((hi - lo + 2) * s) (drop (lo * s) text)"
    using span by (simp only: last_len of_nat_mult)
  moreover have "length chunks = N" by (simp add: chunks)
  ultimately show ?thesis
    unfolding window by (simp add: step lo_def hi_def)
qed

text \<open>
  Claim C1 on the code. The chunks of \<^verbatim>\<open>"abcdef"\<close> under \<open>chunk_size = 3\<close> and
  \<open>chunk_overlap = 1\<close> are \<^verbatim>\<open>"abc"\<close>, \<^verbatim>\<open>"cde"\<close> and \<^verbatim>\<open>"ef"\<close>; the concatenation of
  all of them is \<^verbatim>\<open>"abce"\<close>, which has lost \<^verbatim>\<open>"d"\<close> and \<^verbatim>\<open>"f"\<close>.
\<close>

theorem C1_merge_loses_text:
  "(0::int) < 3 \<and> (0::int) \<le> 1 \<and> (1::int) < 3 \<and>
   map_option (\<lambda>chunks. concatenate_chunks chunks 3 1)
     (split_text_to_chunks_with_indices ''abcdef'' 3 1) = Some (Inr ''abce'')"
  by (simp add: split_text_to_chunks_with_indices_def split_loop.simps py_slice_def py_adjust_def
      concatenate_chunks_def py_slice_from_def)

text \<open>
  Claim C7 on the code. The store holds the chunks of \<^verbatim>\<open>"abcdef"\<close> under
  \<open>chunk_size = 4\<close> and \<open>chunk_overlap = 3\<close>; the search under \<open>k = 1\<close> answers with chunk 0,
  and with \<open>num_neighbors = 1\<close> the window is made of the chunks 0 and 1, \<^verbatim>\<open>"abcd"\<close> and
  \<^verbatim>\<open>"bcde"\<close>, which are contiguous. The span of the source from the offset of chunk 0 to
  the end of chunk 1 is \<^verbatim>\<open>"abcde"\<close>; the window is \<^verbatim>\<open>"abcdcde"\<close>, with \<^verbatim>\<open>"cd"\<close> twice.
\<close>

theorem C7_window_repeats_text:
  "(0::int) < 4 \<and> (0::int) \<le> 3 \<and> (3::int) < 4 \<and>
   map_option (\<lambda>chunks. retrieve_with_context_overlap (store_of chunks) ''q'' 1 1 4 3)
     (split_text_to_chunks_with_indices ''abcdef'' 4 3) = Some (Inr [''abcdcde'']) \<and>
   py_slice ''abcdef'' (0 * (4 - 3)) (1 * (4 - 3) + 4) = ''abcde''"
  by code_simp

end
